theory Spec2Isabelle
  imports Complex_Main
begin

section \<open>Python strings\<close>

text \<open>
  Exception messages, model names and raw replies are Python \<^verbatim>\<open>str\<close> values. They are
  modelled as \<^typ>\<open>string\<close>, read as ASCII text: \<^verbatim>\<open>str.lower\<close> maps the letters
  \<^verbatim>\<open>A\<close> to \<^verbatim>\<open>Z\<close> to \<^verbatim>\<open>a\<close> to \<^verbatim>\<open>z\<close> and leaves every other character alone.
\<close>

definition lower_char :: "char \<Rightarrow> char" where
  "lower_char c =
     (case map_of (zip ''ABCDEFGHIJKLMNOPQRSTUVWXYZ'' ''abcdefghijklmnopqrstuvwxyz'') c of
        Some l \<Rightarrow> l
      | None \<Rightarrow> c)"

definition lower :: "string \<Rightarrow> string" where
  "lower s = map lower_char s"

text \<open>\<^verbatim>\<open>s.startswith(t)\<close>.\<close>

fun startswith :: "string \<Rightarrow> string \<Rightarrow> bool" where
  "startswith s [] = True"
| "startswith [] (t # ts) = False"
| "startswith (c # cs) (t # ts) = (c = t \<and> startswith cs ts)"

text \<open>\<^verbatim>\<open>t in s\<close> on strings: \<open>t\<close> occurs in \<open>s\<close> as a contiguous substring.\<close>

fun str_in :: "string \<Rightarrow> string \<Rightarrow> bool" where
  "str_in t [] = (t = [])"
| "str_in t (c # cs) = (startswith (c # cs) t \<or> str_in t cs)"

text \<open>\<^verbatim>\<open>any(term in error_msg for term in terms)\<close>.\<close>

definition any_term_in :: "string list \<Rightarrow> string \<Rightarrow> bool" where
  "any_term_in terms error_msg = list_ex (\<lambda>trm. str_in trm error_msg) terms"

text \<open>\<^verbatim>\<open>str(n)\<close> for a Python integer, as it is interpolated by an f-string.\<close>

fun string_of_nat :: "nat \<Rightarrow> string" where
  "string_of_nat n =
     (if n < 10 then [''0123456789'' ! n]
      else string_of_nat (n div 10) @ [''0123456789'' ! (n mod 10)])"

definition string_of_int :: "int \<Rightarrow> string" where
  "string_of_int i = (if i < 0 then CHR ''-'' # string_of_nat (nat (- i)) else string_of_nat (nat i))"

section \<open>Observable effects\<close>

text \<open>
  A log line is the level, the f-string of the source verbatim, and the values that the
  f-string interpolates, in order. Keeping the values apart from the text leaves the
  rendering of \<^verbatim>\<open>{delay:.1f}\<close> out of the model. \<open>FErrors\<close> stands for the text of a
  schema validation error, kept as the list of its complaints.
\<close>

datatype fval = FStr string | FInt int | FNum rat | FErrors "string list"

type_synonym log_line = "string \<times> string \<times> fval list"

text \<open>
  The trace of one engine run, oldest event first: an invocation of the callable, a call
  of \<^verbatim>\<open>time.sleep\<close> with its argument, a call of \<^verbatim>\<open>_switch_to_next_model\<close> with its
  result, and a line handed to \<^verbatim>\<open>self.log\<close>.
\<close>

datatype event = Call | Sleep rat | Switch bool | Log log_line

datatype exn =
    ValueError string | Exception string | KeyError string | TypeError string
  | JSONDecodeError string

section \<open>Error classification: \<^verbatim>\<open>_handle_api_error\<close>\<close>

text \<open>
  The dictionary \<^verbatim>\<open>error_patterns\<close> in insertion order, which is the order in which
  \<^verbatim>\<open>.items()\<close> yields it: error type, terms, \<^verbatim>\<open>should_retry\<close>, log level.
\<close>

definition error_patterns :: "int \<Rightarrow> int \<Rightarrow> (string \<times> string list \<times> bool \<times> string) list" where
  "error_patterns attempt max_retries =
     [(''rate_limit'', [''rate_limit'', ''quota'', ''billing'', ''payment''], True, ''warning''),
      (''authentication'', [''authentication'', ''api_key'', ''unauthorized'', ''forbidden''], False, ''error''),
      (''content_policy'', [''content_policy'', ''harmful'', ''safety'', ''violation''], False, ''error''),
      (''token_limit'', [''token''], False, ''error''),
      (''model_unavailable'', [''model''], True, ''info''),
      (''timeout'', [''timeout'', ''deadline'', ''timed out''], attempt < max_retries, ''warning'')]"

text \<open>The \<^verbatim>\<open>if\<close>/\<^verbatim>\<open>elif\<close> chain that logs a classified error (lines 177 to 188).\<close>

definition classification_log ::
  "string \<Rightarrow> string \<Rightarrow> string \<Rightarrow> string \<Rightarrow> int \<Rightarrow> int \<Rightarrow> log_line list" where
  "classification_log error_type log_level provider_name error attempt max_retries =
     (if error_type = ''rate_limit'' then
        [(log_level, ''{provider_name} rate limit/quota hit on attempt {attempt}/{max_retries}'',
          [FStr provider_name, FInt attempt, FInt max_retries])]
      else if error_type = ''authentication'' then
        [(log_level, ''{provider_name} authentication failed: {error}'',
          [FStr provider_name, FStr error])]
      else if error_type = ''content_policy'' then
        [(log_level, ''{provider_name} content policy violation: {error}'',
          [FStr provider_name, FStr error])]
      else if error_type = ''token_limit'' then
        [(log_level, ''{provider_name} token limit exceeded: {error}'',
          [FStr provider_name, FStr error])]
      else if error_type = ''model_unavailable'' then
        [(log_level, ''{provider_name} model unavailable, will try fallback'',
          [FStr provider_name])]
      else if error_type = ''timeout'' then
        [(log_level, ''{provider_name} request timeout on attempt {attempt}/{max_retries}'',
          [FStr provider_name, FInt attempt, FInt max_retries])]
      else [])"

text \<open>
  The loop over the patterns (lines 168 to 190). \<open>None\<close> means that the loop ran to its end
  without returning.
\<close>

fun match_patterns ::
  "(string \<times> string list \<times> bool \<times> string) list \<Rightarrow> string \<Rightarrow> string \<Rightarrow> string \<Rightarrow> int \<Rightarrow> int
     \<Rightarrow> ((bool \<times> string) \<times> log_line list) option" where
  "match_patterns [] error_msg error provider_name attempt max_retries = None"
| "match_patterns ((error_type, terms, should_retry, log_level) # rest)
       error_msg error provider_name attempt max_retries =
     (if any_term_in terms error_msg then
        (if error_type = ''token_limit'' \<and> \<not> any_term_in [''limit'', ''exceeded''] error_msg then
           match_patterns rest error_msg error provider_name attempt max_retries
         else if error_type = ''model_unavailable''
                 \<and> \<not> any_term_in [''not found'', ''unavailable'', ''not available''] error_msg then
           match_patterns rest error_msg error provider_name attempt max_retries
         else
           Some ((should_retry, error_type),
                 classification_log error_type log_level provider_name error attempt max_retries))
      else match_patterns rest error_msg error provider_name attempt max_retries)"

text \<open>
  \<^verbatim>\<open>_handle_api_error(error, attempt, max_retries, operation, provider_name)\<close>, where
  \<open>error\<close> is \<^verbatim>\<open>str(error)\<close>. The result is the pair returned by the source together with
  the lines logged on the way.
\<close>

definition handle_api_error ::
  "string \<Rightarrow> int \<Rightarrow> int \<Rightarrow> string \<Rightarrow> string \<Rightarrow> (bool \<times> string) \<times> log_line list" where
  "handle_api_error error attempt max_retries operation provider_name =
     (let error_msg = lower error in
      case match_patterns (error_patterns attempt max_retries) error_msg error provider_name
             attempt max_retries of
        Some r \<Rightarrow> r
      | None \<Rightarrow>
          ((attempt < max_retries, ''api_error''),
           [(''error'', ''{provider_name} API error on attempt {attempt}: {error}'',
             [FStr provider_name, FInt attempt, FStr error])]))"

text \<open>
  The classification as the specification words it (section 4.1, step 3): six categories
  tried in order, the first match wins, and everything else is \<^verbatim>\<open>api_error\<close>.
\<close>

definition spec_classification :: "string \<Rightarrow> int \<Rightarrow> int \<Rightarrow> bool \<times> string" where
  "spec_classification m attempt max_retries =
     (if str_in ''rate_limit'' m \<or> str_in ''quota'' m \<or> str_in ''billing'' m \<or> str_in ''payment'' m
        then (True, ''rate_limit'')
      else if str_in ''authentication'' m \<or> str_in ''api_key'' m \<or> str_in ''unauthorized'' m
              \<or> str_in ''forbidden'' m
        then (False, ''authentication'')
      else if str_in ''content_policy'' m \<or> str_in ''harmful'' m \<or> str_in ''safety'' m
              \<or> str_in ''violation'' m
        then (False, ''content_policy'')
      else if str_in ''token'' m \<and> (str_in ''limit'' m \<or> str_in ''exceeded'' m)
        then (False, ''token_limit'')
      else if str_in ''model'' m
              \<and> (str_in ''not found'' m \<or> str_in ''unavailable'' m \<or> str_in ''not available'' m)
        then (True, ''model_unavailable'')
      else if str_in ''timeout'' m \<or> str_in ''deadline'' m \<or> str_in ''timed out'' m
        then (attempt < max_retries, ''timeout'')
      else (attempt < max_retries, ''api_error''))"

section \<open>The retry engine: \<^verbatim>\<open>_execute_with_retry\<close>\<close>

text \<open>
  The callable either returns the reply text or raises; \<open>Raises e\<close> carries \<^verbatim>\<open>str(e)\<close>
  of the exception caught by \<^verbatim>\<open>except Exception as e\<close>.
\<close>

datatype outcome = Returns string | Raises string

text \<open>
  The state of one run: the adapter's own state \<open>'p\<close> (current model and fallback list),
  the state \<open>'w\<close> of the vendor on the other side of the callable, and the trace.
  The callable reads the adapter and changes the vendor's state.
\<close>

record ('p, 'w) engine_state =
  provider :: 'p
  world :: 'w
  events :: "event list"

text \<open>
  \<^verbatim>\<open>_get_retry_delay\<close>: \<^verbatim>\<open>base_wait_time * (2 ** (attempt - 1))\<close>. The delay is a
  rational number here; Python's \<^verbatim>\<open>2 ** k\<close> with a negative \<open>k\<close> is the reciprocal power.
\<close>

definition get_retry_delay :: "int \<Rightarrow> rat \<Rightarrow> rat" where
  "get_retry_delay attempt base_wait_time =
     base_wait_time *
       (if 0 \<le> attempt - 1 then 2 ^ nat (attempt - 1) else 1 / 2 ^ nat (- (attempt - 1)))"

text \<open>The default \<^verbatim>\<open>_switch_to_next_model\<close> of the base class: no switch, no log.\<close>

definition base_switch_to_next_model :: "'p \<Rightarrow> (bool \<times> 'p) \<times> log_line list" where
  "base_switch_to_next_model p = ((False, p), [])"

text \<open>The dictionary \<^verbatim>\<open>error_messages\<close> of lines 223 to 227.\<close>

definition error_messages :: "string \<Rightarrow> (string \<times> string) list" where
  "error_messages provider_name =
     [(''authentication'', ''Invalid or expired '' @ provider_name @ '' API key''),
      (''content_policy'', ''Prompt violates '' @ provider_name @ [CHR 0x27] @ ''s content policy''),
      (''token_limit'', ''Prompt too long - reduce input text length'')]"

text \<open>The engine's log line after the switch returned (lines 234 to 237).\<close>

definition switch_outcome_log :: "bool \<Rightarrow> string \<Rightarrow> log_line" where
  "switch_outcome_log switched operation =
     (if switched
      then (''info'', ''Switched to fallback model, retrying {operation}'', [FStr operation])
      else (''warning'', ''No more fallback models available for {operation}'', [FStr operation]))"

text \<open>The engine's log line before it sleeps (line 240).\<close>

definition retry_log :: "string \<Rightarrow> rat \<Rightarrow> int \<Rightarrow> int \<Rightarrow> log_line" where
  "retry_log operation delay attempt max_retries =
     (''info'', ''Retrying {operation} in {delay:.1f}s (attempt {attempt + 1}/{max_retries})'',
      [FStr operation, FNum delay, FInt (attempt + 1), FInt max_retries])"

text \<open>
  Lines 233 to 237: the switch is called, the adapter's own log lines are written while it
  runs, it returns, and the engine logs the outcome.
\<close>

definition try_switch ::
  "('p \<Rightarrow> (bool \<times> 'p) \<times> log_line list) \<Rightarrow> string \<Rightarrow> ('p, 'w) engine_state
     \<Rightarrow> ('p, 'w) engine_state" where
  "try_switch switch_to_next_model operation s =
     (case switch_to_next_model (provider s) of
        ((switched, p), provider_logs) \<Rightarrow>
          s\<lparr>provider := p,
            events := events s @ map Log provider_logs @
              [Switch switched, Log (switch_outcome_log switched operation)]\<rparr>)"

text \<open>The text of the retry-exhaustion error (line 247).\<close>

definition exhaustion_message :: "string \<Rightarrow> int \<Rightarrow> string" where
  "exhaustion_message operation max_retries =
     ''Failed to complete '' @ operation @ '' after '' @ string_of_int max_retries @ '' attempts''"

text \<open>
  The \<^verbatim>\<open>except\<close> block of one attempt (lines 219 to 247). \<open>Some x\<close>: the block raises
  \<open>x\<close>; \<open>None\<close>: the loop goes on to the next attempt, by \<^verbatim>\<open>continue\<close> or by reaching
  the end of the block. \<^verbatim>\<open>time.sleep\<close> raises \<^verbatim>\<open>ValueError\<close> on a negative argument.
\<close>

definition on_exception ::
  "('p \<Rightarrow> (bool \<times> 'p) \<times> log_line list) \<Rightarrow> string \<Rightarrow> int \<Rightarrow> rat \<Rightarrow> string \<Rightarrow> string \<Rightarrow> int
     \<Rightarrow> ('p, 'w) engine_state \<Rightarrow> exn option \<times> ('p, 'w) engine_state" where
  "on_exception switch_to_next_model operation max_retries base_wait_time provider_name e attempt s =
     (case handle_api_error e attempt max_retries operation provider_name of
        ((should_retry, error_type), logs) \<Rightarrow>
          (let s1 = s\<lparr>events := events s @ map Log logs\<rparr> in
           if error_type \<in> set [''authentication'', ''content_policy'', ''token_limit''] then
             (case map_of (error_messages provider_name) error_type of
                Some m \<Rightarrow> (Some (ValueError m), s1)
              | None \<Rightarrow> (Some (KeyError error_type), s1))
           else if should_retry \<and> attempt < max_retries then
             (let s2 = (if error_type = ''model_unavailable''
                        then try_switch switch_to_next_model operation s1 else s1);
                  delay = get_retry_delay attempt base_wait_time;
                  s3 = s2\<lparr>events := events s2 @
                         [Log (retry_log operation delay attempt max_retries), Sleep delay]\<rparr>
              in if delay < 0 then (Some (ValueError ''sleep length must be non-negative''), s3)
                 else (None, s3))
           else if attempt \<ge> max_retries then
             (Some (Exception (exhaustion_message operation max_retries)),
              s1\<lparr>events := events s1 @
                    [Log (''error'', ''Failed to complete {operation} after {max_retries} attempts'',
                          [FStr operation, FInt max_retries])]\<rparr>)
           else (None, s1)))"

text \<open>
  The \<^verbatim>\<open>for\<close> loop over the attempts that are left. When the list is used up the loop ends
  and line 250 raises.
\<close>

fun retry_loop ::
  "('p \<Rightarrow> (bool \<times> 'p) \<times> log_line list) \<Rightarrow> string \<Rightarrow> ('p \<Rightarrow> 'w \<Rightarrow> outcome \<times> 'w) \<Rightarrow> int \<Rightarrow> rat
     \<Rightarrow> string \<Rightarrow> int list \<Rightarrow> ('p, 'w) engine_state \<Rightarrow> (exn + string) \<times> ('p, 'w) engine_state" where
  "retry_loop switch_to_next_model operation api_call_func max_retries base_wait_time provider_name
       [] s =
     (Inl (Exception (''Unexpected error in '' @ operation)), s)"
| "retry_loop switch_to_next_model operation api_call_func max_retries base_wait_time provider_name
       (attempt # rest) s =
     (case api_call_func (provider s) (world s) of
        (Returns r, w) \<Rightarrow> (Inr r, s\<lparr>world := w, events := events s @ [Call]\<rparr>)
      | (Raises e, w) \<Rightarrow>
          (case on_exception switch_to_next_model operation max_retries base_wait_time
                  provider_name e attempt (s\<lparr>world := w, events := events s @ [Call]\<rparr>) of
             (Some x, s') \<Rightarrow> (Inl x, s')
           | (None, s') \<Rightarrow>
               retry_loop switch_to_next_model operation api_call_func max_retries base_wait_time
                 provider_name rest s'))"

text \<open>
  \<^verbatim>\<open>_execute_with_retry\<close>; \<^verbatim>\<open>range(1, max_retries + 1)\<close> is the list \<open>[1..max_retries]\<close>,
  empty when \<open>max_retries < 1\<close>.
\<close>

definition execute_with_retry ::
  "('p \<Rightarrow> (bool \<times> 'p) \<times> log_line list) \<Rightarrow> string \<Rightarrow> ('p \<Rightarrow> 'w \<Rightarrow> outcome \<times> 'w) \<Rightarrow> int \<Rightarrow> rat
     \<Rightarrow> string \<Rightarrow> ('p, 'w) engine_state \<Rightarrow> (exn + string) \<times> ('p, 'w) engine_state" where
  "execute_with_retry switch_to_next_model operation api_call_func max_retries base_wait_time
       provider_name s =
     retry_loop switch_to_next_model operation api_call_func max_retries base_wait_time
       provider_name [1..max_retries] s"

text \<open>How often the callable has been invoked in a trace.\<close>

definition calls :: "event list \<Rightarrow> nat" where
  "calls evs = length (filter (\<lambda>ev. ev = Call) evs)"


text \<open>The trace without its log lines: invocations, sleeps and switches only.\<close>

definition effects :: "event list \<Rightarrow> event list" where
  "effects evs = filter (\<lambda>ev. case ev of Log l \<Rightarrow> False | _ \<Rightarrow> True) evs"

section \<open>Provider adapters: \<^verbatim>\<open>_switch_to_next_model\<close>\<close>

text \<open>
  The part of an adapter that the fallback logic reads and writes. The index comes from
  \<^verbatim>\<open>list.index\<close> or is \<open>0\<close>, so it is a natural number. The Gemini adapter also holds the
  client object built for one model, \<^verbatim>\<open>model_instance\<close>, kept here as the name of that model.
\<close>

record provider_state =
  available_models :: "string list"
  current_model_index :: nat

record gemini_state = provider_state +
  model_instance :: "string option"

text \<open>
  \<^verbatim>\<open>ClaudeProvider._switch_to_next_model\<close>: the loop over \<^verbatim>\<open>range(len(self.available_models))\<close>.
  An index \<open>i\<close> that passes the test \<open>i > current_model_index\<close> comes from that range, so both list
  reads are in range.
\<close>

fun claude_switch_loop ::
  "nat list \<Rightarrow> provider_state \<Rightarrow> (bool \<times> provider_state) \<times> log_line list" where
  "claude_switch_loop [] self =
     ((False, self), [(''warning'', ''No more Claude models available for fallback'', [])])"
| "claude_switch_loop (i # rest) self =
     (if i > current_model_index self then
        (let old_model = available_models self ! current_model_index self;
             self1 = self\<lparr>current_model_index := i\<rparr>;
             new_model = available_models self1 ! current_model_index self1
         in ((True, self1),
             [(''info'', ''Switching Claude from {old_model} to fallback model: {new_model}'',
               [FStr old_model, FStr new_model])]))
      else claude_switch_loop rest self)"

definition claude_switch_to_next_model ::
  "provider_state \<Rightarrow> (bool \<times> provider_state) \<times> log_line list" where
  "claude_switch_to_next_model self =
     claude_switch_loop [0..<length (available_models self)] self"

text \<open>
  \<^verbatim>\<open>GeminiProvider._initialize_model\<close>. The vendor's constructor \<^verbatim>\<open>genai.GenerativeModel\<close> is
  the parameter \<open>init_failure\<close>: \<open>None\<close> when it builds the client for the named model,
  \<open>Some e\<close> when it raises an exception with text \<open>e\<close>. The first component of the result is
  the exception that \<^verbatim>\<open>_initialize_model\<close> re-raises, if any.
\<close>

definition initialize_model ::
  "(string \<Rightarrow> string option) \<Rightarrow> gemini_state \<Rightarrow> (string option \<times> gemini_state) \<times> log_line list" where
  "initialize_model init_failure self =
     (let current_model = available_models self ! current_model_index self in
      case init_failure current_model of
        None \<Rightarrow>
          ((None, self\<lparr>model_instance := Some current_model\<rparr>),
           [(''info'', ''Gemini model initialized: {current_model}'', [FStr current_model])])
      | Some e \<Rightarrow>
          ((Some e, self), [(''error'', ''Failed to initialize Gemini model: {e}'', [FStr e])]))"

text \<open>
  \<^verbatim>\<open>GeminiProvider._switch_to_next_model\<close>: as for Claude, but the client is rebuilt for the
  new model, and when that fails the loop goes on to the next index, with the index
  already advanced.
\<close>

fun gemini_switch_loop ::
  "(string \<Rightarrow> string option) \<Rightarrow> nat list \<Rightarrow> gemini_state
     \<Rightarrow> (bool \<times> gemini_state) \<times> log_line list" where
  "gemini_switch_loop init_failure [] self =
     ((False, self), [(''warning'', ''No more Gemini models available for fallback'', [])])"
| "gemini_switch_loop init_failure (i # rest) self =
     (if i > current_model_index self then
        (let old_model = available_models self ! current_model_index self;
             self1 = self\<lparr>current_model_index := i\<rparr>;
             new_model = available_models self1 ! current_model_index self1;
             switching = (''info'', ''Switching Gemini from {old_model} to fallback model: {new_model}'',
                          [FStr old_model, FStr new_model])
         in case initialize_model init_failure self1 of
              ((None, self2), init_logs) \<Rightarrow> ((True, self2), switching # init_logs)
            | ((Some e, self2), init_logs) \<Rightarrow>
                (case gemini_switch_loop init_failure rest self2 of
                   (r, later_logs) \<Rightarrow>
                     (r, switching # init_logs
                           @ [(''error'', ''Failed to initialize fallback model {new_model}: {e}'',
                               [FStr new_model, FStr e])]
                           @ later_logs)))
      else gemini_switch_loop init_failure rest self)"

definition gemini_switch_to_next_model ::
  "(string \<Rightarrow> string option) \<Rightarrow> gemini_state \<Rightarrow> (bool \<times> gemini_state) \<times> log_line list" where
  "gemini_switch_to_next_model init_failure self =
     gemini_switch_loop init_failure [0..<length (available_models self)] self"

text \<open>
  \<open>n\<close> calls of a switch in a row on one adapter: the results in order, and the adapter
  afterwards.
\<close>

fun switch_times :: "('p \<Rightarrow> (bool \<times> 'p) \<times> log_line list) \<Rightarrow> nat \<Rightarrow> 'p \<Rightarrow> bool list \<times> 'p" where
  "switch_times sw 0 p = ([], p)"
| "switch_times sw (Suc n) p =
     (case sw p of
        ((r, p1), logs) \<Rightarrow> (case switch_times sw n p1 of (rs, p2) \<Rightarrow> (r # rs, p2)))"

text \<open>The fallback lists that the two constructors set up, and the adapters they build.\<close>

definition claude_models :: "string list" where
  "claude_models =
     [''claude-3-5-sonnet-20241022'', ''claude-3-5-haiku-20241022'', ''claude-3-opus-20240229'']"

definition gemini_models :: "string list" where
  "gemini_models = [''gemini-1.5-pro'', ''gemini-1.5-flash'', ''gemini-1.0-pro'']"

section \<open>Response processing: \<^verbatim>\<open>_extract_json_from_response\<close>\<close>

text \<open>
  \<^verbatim>\<open>re.search(r'\{[^{}]*(?:\{[^{}]*\}[^{}]*)*\}', response)\<close>. After the opening brace the
  pattern leaves no choice: a run \<^verbatim>\<open>[^{}]*\<close> ends before a brace or at the end of the text,
  an opening brace can only start a group, and a closing brace can only end a group or the
  whole match. \<open>match_object nested cs\<close> reads \<open>cs\<close>, the text after an opening brace, and
  returns the text up to the closing brace of the match; \<open>nested\<close> says that a group is
  open. \<open>None\<close> means no match from that opening brace.
\<close>

fun match_object :: "bool \<Rightarrow> string \<Rightarrow> string option" where
  "match_object nested [] = None"
| "match_object nested (c # cs) =
     (if c = CHR ''}'' then
        (if nested then map_option ((#) c) (match_object False cs) else Some [c])
      else if c = CHR ''{'' then
        (if nested then None else map_option ((#) c) (match_object True cs))
      else map_option ((#) c) (match_object nested cs))"

text \<open>\<^verbatim>\<open>re.search\<close> tries the start positions from left to right and returns the first match.\<close>

fun re_search :: "string \<Rightarrow> string option" where
  "re_search [] = None"
| "re_search (c # cs) =
     (if c = CHR ''{'' then
        (case match_object False cs of
           Some m \<Rightarrow> Some (c # m)
         | None \<Rightarrow> re_search cs)
      else re_search cs)"

definition extract_json_from_response :: "string \<Rightarrow> (exn + string) \<times> log_line list" where
  "extract_json_from_response response =
     (case re_search response of
        None \<Rightarrow>
          (Inl (ValueError ''No JSON object found in response''),
           [(''error'', ''No JSON object found in response'', [])])
      | Some json_match \<Rightarrow> (Inr json_match, []))"

text \<open>
  The language of the pattern, stated on its own: \<open>no_brace\<close> is \<^verbatim>\<open>[^{}]*\<close>, \<open>groups\<close> is
  \<^verbatim>\<open>(?:\{[^{}]*\}[^{}]*)*\<close>, and \<open>matches_pattern\<close> is the whole pattern.
\<close>

definition no_brace :: "string \<Rightarrow> bool" where
  "no_brace s \<longleftrightarrow> CHR ''{'' \<notin> set s \<and> CHR ''}'' \<notin> set s"

inductive groups :: "string \<Rightarrow> bool" where
  groups_empty: "groups []"
| groups_more: "no_brace b \<Longrightarrow> no_brace c \<Longrightarrow> groups r \<Longrightarrow> groups (''{'' @ b @ ''}'' @ c @ r)"

definition matches_pattern :: "string \<Rightarrow> bool" where
  "matches_pattern m \<longleftrightarrow> (\<exists>a r. no_brace a \<and> groups r \<and> m = ''{'' @ a @ r @ ''}'')"

text \<open>What \<open>match_object\<close> returns: the rest of a match, at top level and inside a group.\<close>

definition tail_top :: "string \<Rightarrow> bool" where
  "tail_top m \<longleftrightarrow> (\<exists>a r. no_brace a \<and> groups r \<and> m = a @ r @ ''}'')"

definition tail_nested :: "string \<Rightarrow> bool" where
  "tail_nested m \<longleftrightarrow> (\<exists>b c r. no_brace b \<and> no_brace c \<and> groups r \<and> m = b @ ''}'' @ c @ r @ ''}'')"

section \<open>Output validation: \<^verbatim>\<open>validation.py\<close>\<close>

text \<open>
  A parsed JSON value; an object is the dictionary that \<^verbatim>\<open>json.loads\<close> builds, with
  each key once.
\<close>

datatype json =
    JNull | JBool bool | JNumber rat | JString string | JArray "json list"
  | JObject "(string \<times> json) list"
















section \<open>The two operations of an adapter\<close>











section \<open>Facts about strings\<close>

lemma startswith_iff: "startswith s t \<longleftrightarrow> (\<exists>q. s = t @ q)"
  by (induction s t rule: startswith.induct) auto

lemma str_in_iff: "str_in t s \<longleftrightarrow> (\<exists>p q. s = p @ t @ q)"
proof (induction s)
  case Nil
  show ?case by auto
next
  case (Cons c cs)
  show ?case
  proof
    assume "str_in t (c # cs)"
    then consider "startswith (c # cs) t" | "str_in t cs" by auto
    then show "\<exists>p q. c # cs = p @ t @ q"
    proof cases
      case 1
      then obtain q where "c # cs = t @ q" by (auto simp: startswith_iff)
      then have "c # cs = [] @ t @ q" by simp
      then show ?thesis by blast
    next
      case 2
      then obtain p q where "cs = p @ t @ q" using Cons.IH by blast
      then have "c # cs = (c # p) @ t @ q" by simp
      then show ?thesis by blast
    qed
  next
    assume "\<exists>p q. c # cs = p @ t @ q"
    then obtain p q where pq: "c # cs = p @ t @ q" by blast
    show "str_in t (c # cs)"
    proof (cases p)
      case Nil
      then have "startswith (c # cs) t" using pq by (auto simp: startswith_iff)
      then show ?thesis by simp
    next
      case (Cons a p')
      then have "cs = p' @ t @ q" using pq by simp
      then have "str_in t cs" using Cons.IH by blast
      then show ?thesis by simp
    qed
  qed
qed

lemma str_in_lower:
  assumes "str_in t s" and "lower t = t"
  shows "str_in t (lower s)"
proof -
  obtain p q where "s = p @ t @ q" using assms(1) by (auto simp: str_in_iff)
  then have "lower s = lower p @ t @ lower q" using assms(2) by (simp add: lower_def)
  then show ?thesis unfolding str_in_iff by blast
qed

section \<open>Classification: the code against the specification\<close>

lemma handle_api_error_classification:
  "fst (handle_api_error error attempt max_retries operation provider_name)
     = spec_classification (lower error) attempt max_retries"
  by (simp add: handle_api_error_def error_patterns_def any_term_in_def spec_classification_def
        Let_def)

text \<open>
  C2. For every exception message, \<^verbatim>\<open>_handle_api_error\<close> returns the retry flag and the
  error type that ordered first-match-wins matching over the six categories gives on the
  lower-cased message: \<^verbatim>\<open>rate_limit\<close> retryable; \<^verbatim>\<open>authentication\<close>, \<^verbatim>\<open>content_policy\<close>
  and \<^verbatim>\<open>token_limit\<close> (\<^verbatim>\<open>token\<close> together with \<^verbatim>\<open>limit\<close> or \<^verbatim>\<open>exceeded\<close>) not retryable;
  \<^verbatim>\<open>model_unavailable\<close> (\<^verbatim>\<open>model\<close> together with an availability term) retryable;
  \<^verbatim>\<open>timeout\<close> retryable exactly when attempts remain; and every other message is
  \<^verbatim>\<open>api_error\<close>, retryable exactly when attempts remain.
\<close>

theorem C2_classification_refines_spec:
  "fst (handle_api_error error attempt max_retries operation provider_name)
     = spec_classification (lower error) attempt max_retries"
  by (rule handle_api_error_classification)

theorem C2_classification_witness:
  "fst (handle_api_error ''Model XYZ not found'' 1 3 ''op'' ''Claude'') = (True, ''model_unavailable'')
   \<and> fst (handle_api_error ''token budget'' 3 3 ''op'' ''Claude'') = (False, ''api_error'')"
  using C2_classification_refines_spec [of "''Model XYZ not found''" 1 3 "''op''" "''Claude''"]
    C2_classification_refines_spec [of "''token budget''" 3 3 "''op''" "''Claude''"]
  by (simp add: spec_classification_def lower_def lower_char_def)

section \<open>The retry engine: number of invocations\<close>



lemma calls_append: "calls (xs @ ys) = calls xs + calls ys"
  by (simp add: calls_def)

lemma calls_logs: "calls (map Log ls) = 0"
  by (induction ls) (simp_all add: calls_def)

lemma try_switch_events:
  "\<exists>tl. events (try_switch sw op s) = events s @ tl \<and> calls tl = 0"
  by (simp add: try_switch_def calls_append calls_logs split: prod.splits) (simp add: calls_def)

lemma try_switch_world: "world (try_switch sw op s) = world s"
  by (simp add: try_switch_def split: prod.splits)

lemma on_exception_events:
  "\<exists>tl. events (snd (on_exception sw op m b pn e a s)) = events s @ tl \<and> calls tl = 0"
proof -
  obtain r ty logs where h: "handle_api_error e a m op pn = ((r, ty), logs)"
    by (metis prod.exhaust)
  obtain tl where tl: "events (try_switch sw op (s\<lparr>events := events s @ map Log logs\<rparr>))
      = (events s @ map Log logs) @ tl" "calls tl = 0"
    using try_switch_events [of sw op "s\<lparr>events := events s @ map Log logs\<rparr>"] by auto
  show ?thesis
    using tl by (auto simp: on_exception_def h Let_def calls_append calls_logs calls_def split: option.splits)
qed



lemma on_exception_world: "world (snd (on_exception sw op m b pn e a s)) = world s"
  by (simp add: on_exception_def Let_def try_switch_world split: prod.splits option.splits)





lemma retry_loop_events:
  "\<exists>tl. events (snd (retry_loop sw op f m b pn as s)) = events s @ tl
        \<and> (as \<noteq> [] \<longrightarrow> (\<exists>tl'. tl = Call # tl'))"
proof (induction as arbitrary: s)
  case Nil
  show ?case by simp
next
  case (Cons a as)
  obtain o' w where f: "f (provider s) (world s) = (o', w)" by (metis prod.exhaust)
  let ?s1 = "s\<lparr>world := w, events := events s @ [Call]\<rparr>"
  show ?case
  proof (cases o')
    case (Returns r)
    then show ?thesis by (simp add: f)
  next
    case (Raises e)
    obtain x s' where oe: "on_exception sw op m b pn e a ?s1 = (x, s')" by (metis prod.exhaust)
    obtain tl where tl: "events s' = events ?s1 @ tl"
      using on_exception_events [of sw op m b pn e a ?s1] oe by auto
    show ?thesis
    proof (cases x)
      case None
      obtain tl2 where "events (snd (retry_loop sw op f m b pn as s')) = events s' @ tl2"
        using Cons.IH [of s'] by blast
      then show ?thesis using tl by (simp add: f Raises oe None)
    next
      case (Some y)
      then show ?thesis using tl by (simp add: f Raises oe)
    qed
  qed
qed

text \<open>
  C10. With \<open>max_retries < 1\<close> the loop body never runs: the callable is not invoked, the
  state is left as it was, and line 250 raises \<^verbatim>\<open>Unexpected error in {operation}\<close>, not the
  exhaustion error. The callable is invoked at least once exactly when \<open>max_retries \<ge> 1\<close>.
\<close>

theorem C10_no_attempts:
  "(max_retries < 1 \<longrightarrow>
      execute_with_retry sw operation api_call_func max_retries base_wait_time provider_name s
        = (Inl (Exception (''Unexpected error in '' @ operation)), s))
   \<and> (calls (events s) < calls (events (snd (execute_with_retry sw operation api_call_func max_retries
          base_wait_time provider_name s))) \<longleftrightarrow> 1 \<le> max_retries)"
proof (cases "1 \<le> max_retries")
  case True
  then have ne: "[1..max_retries] \<noteq> []" by simp
  obtain tl where "events (snd (retry_loop sw operation api_call_func max_retries base_wait_time
       provider_name [1..max_retries] s)) = events s @ Call # tl"
    using retry_loop_events [of sw operation api_call_func max_retries base_wait_time provider_name
        "[1..max_retries]" s] ne by blast
  then show ?thesis using True by (simp add: execute_with_retry_def calls_def)
next
  case False
  then have "[1..max_retries] = []" by simp
  then show ?thesis using False by (simp add: execute_with_retry_def)
qed

theorem C10_witness:
  "execute_with_retry base_switch_to_next_model ''ANALYZE'' (\<lambda>p w. (Returns ''ok'', w)) 0 1 ''Claude''
     \<lparr>provider = (), world = (), events = []\<rparr>
     = (Inl (Exception ''Unexpected error in ANALYZE''), \<lparr>provider = (), world = (), events = []\<rparr>)
   \<and> calls (events (snd (execute_with_retry base_switch_to_next_model ''ANALYZE''
          (\<lambda>p w. (Returns ''ok'', w)) 1 1 ''Claude'' \<lparr>provider = (), world = (), events = []\<rparr>))) = 1"
  using C10_no_attempts [of 0 base_switch_to_next_model "''ANALYZE''" "\<lambda>p w. (Returns ''ok'', w)" 1
      "''Claude''" "\<lparr>provider = (), world = (), events = []\<rparr>"]
  by (simp add: execute_with_retry_def upto.simps calls_def)


section \<open>The retry engine: one retried attempt\<close>




lemma unauthorized_classified:
  assumes "str_in ''unauthorized'' e"
    and "\<not> any_term_in [''rate_limit'', ''quota'', ''billing'', ''payment''] (lower e)"
  shows "handle_api_error e a m op pn
           = ((False, ''authentication''),
              [(''error'', ''{provider_name} authentication failed: {error}'', [FStr pn, FStr e])])"
proof -
  have "lower ''unauthorized'' = ''unauthorized''" by (simp add: lower_def lower_char_def)
  then have "str_in ''unauthorized'' (lower e)" using assms(1) str_in_lower by blast
  then show ?thesis using assms(2)
    by (simp add: handle_api_error_def error_patterns_def any_term_in_def classification_log_def)
qed

text \<open>
  C3, as amended. Let the message contain \<^verbatim>\<open>unauthorized\<close>, and let its lower-cased text
  contain none of the \<^verbatim>\<open>rate_limit\<close> terms (\<^verbatim>\<open>rate_limit\<close>, \<^verbatim>\<open>quota\<close>, \<^verbatim>\<open>billing\<close>,
  \<^verbatim>\<open>payment\<close>), which are tried first. Then the classification is \<^verbatim>\<open>authentication\<close>, not
  retryable, and at whatever attempt the callable raises it the engine raises
  \<^verbatim>\<open>Invalid or expired {provider} API key\<close> at once: the trace gains the failed invocation
  and the log line of the classification, and no sleep, no switch and no further invocation.
\<close>

theorem C3_unauthorized_is_fatal:
  assumes "str_in ''unauthorized'' e"
    and "\<not> any_term_in [''rate_limit'', ''quota'', ''billing'', ''payment''] (lower e)"
  shows "fst (handle_api_error e attempt max_retries operation provider_name)
           = (False, ''authentication'')
       \<and> (api_call_func (provider s) (world s) = (Raises e, w) \<longrightarrow>
            retry_loop sw operation api_call_func max_retries base_wait_time provider_name
                (attempt # rest) s
              = (Inl (ValueError (''Invalid or expired '' @ provider_name @ '' API key'')),
                 s\<lparr>world := w,
                   events := events s @
                     [Call, Log (''error'', ''{provider_name} authentication failed: {error}'',
                                 [FStr provider_name, FStr e])]\<rparr>))"
  by (simp add: unauthorized_classified [OF assms] on_exception_def error_messages_def)

theorem C3_witness:
  "str_in ''unauthorized'' ''401 unauthorized''
   \<and> \<not> any_term_in [''rate_limit'', ''quota'', ''billing'', ''payment''] (lower ''401 unauthorized'')
   \<and> fst (handle_api_error ''401 unauthorized'' 2 3 ''ANALYZE'' ''Claude'') = (False, ''authentication'')
   \<and> retry_loop base_switch_to_next_model ''ANALYZE'' (\<lambda>p w. (Raises ''401 unauthorized'', w)) 3 1
         ''Claude'' [2, 3] \<lparr>provider = (), world = (), events = []\<rparr>
       = (Inl (ValueError ''Invalid or expired Claude API key''),
          \<lparr>provider = (), world = (),
            events = [Call, Log (''error'', ''{provider_name} authentication failed: {error}'',
                                 [FStr ''Claude'', FStr ''401 unauthorized''])]\<rparr>)"
proof -
  have h1: "str_in ''unauthorized'' ''401 unauthorized''" by simp
  have h2: "\<not> any_term_in [''rate_limit'', ''quota'', ''billing'', ''payment'']
              (lower ''401 unauthorized'')"
    by (simp add: any_term_in_def lower_def lower_char_def)
  show ?thesis
    using h1 h2 C3_unauthorized_is_fatal [OF h1 h2, of 2 3 "''ANALYZE''" "''Claude''"
        "\<lambda>p w. (Raises ''401 unauthorized'', w)" "\<lparr>provider = (), world = (), events = []\<rparr>" "()"
        base_switch_to_next_model 1 "[3]"]
    by simp
qed

text \<open>
  Without the second condition the statement fails. This message holds a \<^verbatim>\<open>rate_limit\<close>
  term too: it contains \<^verbatim>\<open>unauthorized\<close>, is classified \<^verbatim>\<open>rate_limit\<close>, and the engine
  sleeps and retries.
\<close>

theorem C3_counterexample:
  "str_in ''unauthorized'' ''unauthorized: quota exceeded''
   \<and> fst (handle_api_error ''unauthorized: quota exceeded'' 1 3 ''ANALYZE'' ''Claude'')
       = (True, ''rate_limit'')
   \<and> effects (events (snd (execute_with_retry base_switch_to_next_model ''ANALYZE''
          (\<lambda>p w. (Raises ''unauthorized: quota exceeded'', w)) 3 1 ''Claude''
          \<lparr>provider = (), world = (), events = []\<rparr>)))
       = [Call, Sleep 1, Call, Sleep 2, Call]"
  by (simp add: handle_api_error_def error_patterns_def any_term_in_def classification_log_def
      lower_def lower_char_def execute_with_retry_def upto.simps on_exception_def Let_def
      get_retry_delay_def effects_def retry_log_def)








section \<open>Model fallback\<close>

lemma claude_loop_step:
  "j \<le> Suc (current_model_index self) \<Longrightarrow> j \<le> L \<Longrightarrow>
   fst (claude_switch_loop [j..<L] self)
     = (if Suc (current_model_index self) < L
        then (True, self\<lparr>current_model_index := Suc (current_model_index self)\<rparr>)
        else (False, self))"
proof (induction "L - j" arbitrary: j)
  case 0
  then show ?case by simp
next
  case (Suc n)
  then have lt: "j < L" by simp
  have rec: "[j..<L] = j # [Suc j..<L]" using lt by (simp add: upt_rec)
  show ?case
  proof (cases "j > current_model_index self")
    case True
    then have "j = Suc (current_model_index self)" using Suc.prems by simp
    then show ?thesis unfolding rec using lt by (simp add: Let_def)
  next
    case False
    have "n = L - Suc j" using Suc(2) by simp
    moreover have "Suc j \<le> Suc (current_model_index self)" using False by simp
    moreover have "Suc j \<le> L" using lt by simp
    ultimately show ?thesis unfolding rec using Suc(1) [of "Suc j"] False by simp
  qed
qed

lemma claude_switch_step:
  "fst (claude_switch_to_next_model self)
     = (if Suc (current_model_index self) < length (available_models self)
        then (True, self\<lparr>current_model_index := Suc (current_model_index self)\<rparr>)
        else (False, self))"
  using claude_loop_step [of 0 self "length (available_models self)"]
  by (simp add: claude_switch_to_next_model_def)

lemma switch_times_Suc_snd:
  "snd (switch_times sw (Suc n) p) = snd (switch_times sw n (snd (fst (sw p))))"
  by (simp split: prod.splits)

lemma switch_times_Suc_fst:
  "fst (switch_times sw (Suc n) p) = fst (fst (sw p)) # fst (switch_times sw n (snd (fst (sw p))))"
  by (simp split: prod.splits)

lemma switch_times_add:
  "snd (switch_times sw (n + k) p) = snd (switch_times sw k (snd (switch_times sw n p)))"
proof (induction n arbitrary: p)
  case 0
  show ?case by simp
next
  case (Suc n)
  have "snd (switch_times sw (Suc n + k) p) = snd (switch_times sw (n + k) (snd (fst (sw p))))"
    using switch_times_Suc_snd [of sw "n + k" p] by simp
  also have "\<dots> = snd (switch_times sw k (snd (switch_times sw n (snd (fst (sw p))))))"
    by (rule Suc)
  also have "\<dots> = snd (switch_times sw k (snd (switch_times sw (Suc n) p)))"
    by (simp only: switch_times_Suc_snd)
  finally show ?case .
qed

lemma upt_shift: "[Suc 0..<Suc (Suc n)] = Suc 0 # map Suc [Suc 0..<Suc n]"
  by (simp add: upt_conv_Cons map_Suc_upt del: upt_Suc)

lemma claude_switch_times:
  "fst (switch_times claude_switch_to_next_model n self)
     = map (\<lambda>k. current_model_index self + k < length (available_models self)) [Suc 0..<Suc n]
   \<and> available_models (snd (switch_times claude_switch_to_next_model n self)) = available_models self
   \<and> current_model_index (snd (switch_times claude_switch_to_next_model n self))
       = (if current_model_index self < length (available_models self)
          then min (current_model_index self + n) (length (available_models self) - 1)
          else current_model_index self)"
proof (induction n arbitrary: self)
  case 0
  show ?case by simp
next
  case (Suc n)
  let ?p1 = "snd (fst (claude_switch_to_next_model self))"
  note IH = Suc [of ?p1]
  show ?case
  proof (cases "Suc (current_model_index self) < length (available_models self)")
    case True
    then have st: "fst (claude_switch_to_next_model self)
        = (True, self\<lparr>current_model_index := Suc (current_model_index self)\<rparr>)"
      by (simp add: claude_switch_step)
    show ?thesis using IH True
      unfolding switch_times_Suc_fst switch_times_Suc_snd upt_shift st
      by (auto simp: min_def comp_def)
  next
    case False
    then have st: "fst (claude_switch_to_next_model self) = (False, self)"
      by (simp add: claude_switch_step)
    show ?thesis using IH False
      unfolding switch_times_Suc_fst switch_times_Suc_snd upt_shift st
      by (auto simp: min_def comp_def)
  qed
qed

lemma initialize_model_fields:
  "available_models (snd (fst (initialize_model init self))) = available_models self
   \<and> current_model_index (snd (fst (initialize_model init self))) = current_model_index self"
  by (simp add: initialize_model_def Let_def split: option.splits)

lemma gemini_loop_mono:
  "current_model_index self \<le> current_model_index (snd (fst (gemini_switch_loop init is self)))
   \<and> available_models (snd (fst (gemini_switch_loop init is self))) = available_models self"
proof (induction "is" arbitrary: self)
  case Nil
  show ?case by simp
next
  case (Cons i rest)
  show ?case
  proof (cases "i > current_model_index self")
    case False
    then show ?thesis using Cons [of self] by simp
  next
    case True
    let ?self1 = "self\<lparr>current_model_index := i\<rparr>"
    obtain x self2 l where im: "initialize_model init ?self1 = ((x, self2), l)"
      by (metis prod.exhaust)
    have f2: "available_models self2 = available_models self" "current_model_index self2 = i"
      using initialize_model_fields [of init ?self1] im by simp_all
    show ?thesis
    proof (cases x)
      case None
      then show ?thesis using True f2 by (simp add: Let_def im)
    next
      case (Some e)
      then show ?thesis using True f2 Cons [of self2]
        by (simp add: Let_def im split: prod.splits) (metis fst_conv snd_conv less_imp_le order_trans)
    qed
  qed
qed

lemma gemini_switch_mono:
  "current_model_index self
     \<le> current_model_index (snd (fst (gemini_switch_to_next_model init self)))"
  by (simp add: gemini_switch_to_next_model_def gemini_loop_mono)

lemma claude_switch_mono:
  "current_model_index self \<le> current_model_index (snd (fst (claude_switch_to_next_model self)))"
  by (simp add: claude_switch_step)

lemma switch_times_mono:
  assumes "\<And>p. idx p \<le> idx (snd (fst (sw p)))"
  shows "(idx p :: nat) \<le> idx (snd (switch_times sw n p))"
proof (induction n arbitrary: p)
  case 0
  show ?case by simp
next
  case (Suc n)
  have "idx p \<le> idx (snd (fst (sw p)))" by (rule assms)
  also have "\<dots> \<le> idx (snd (switch_times sw n (snd (fst (sw p)))))" by (rule Suc)
  finally show ?case by (simp only: switch_times_Suc_snd)
qed

lemma gemini_loop_step:
  assumes ok: "\<forall>m \<in> set (available_models self). init m = None"
  shows "j \<le> Suc (current_model_index self) \<Longrightarrow> j \<le> L \<Longrightarrow> L \<le> length (available_models self) \<Longrightarrow>
   fst (gemini_switch_loop init [j..<L] self)
     = (if Suc (current_model_index self) < L
        then (True, self\<lparr>current_model_index := Suc (current_model_index self),
                         model_instance := Some (available_models self ! Suc (current_model_index self))\<rparr>)
        else (False, self))"
proof (induction "L - j" arbitrary: j)
  case 0
  then show ?case by simp
next
  case (Suc n)
  then have lt: "j < L" by simp
  have rec: "[j..<L] = j # [Suc j..<L]" using lt by (simp add: upt_rec)
  show ?case
  proof (cases "j > current_model_index self")
    case True
    then have j: "j = Suc (current_model_index self)" using Suc.prems by simp
    have "available_models self ! j \<in> set (available_models self)"
      using lt Suc.prems by simp
    then have "init (available_models self ! j) = None" using ok by blast
    then show ?thesis unfolding rec using lt j by (simp add: Let_def initialize_model_def)
  next
    case False
    have "n = L - Suc j" using Suc(2) by simp
    moreover have "Suc j \<le> Suc (current_model_index self)" using False by simp
    moreover have "Suc j \<le> L" using lt by simp
    ultimately show ?thesis unfolding rec using Suc(1) [of "Suc j"] False Suc.prems by simp
  qed
qed

lemma gemini_switch_step:
  assumes "\<forall>m \<in> set (available_models self). init m = None"
  shows "fst (gemini_switch_to_next_model init self)
     = (if Suc (current_model_index self) < length (available_models self)
        then (True, self\<lparr>current_model_index := Suc (current_model_index self),
                         model_instance := Some (available_models self ! Suc (current_model_index self))\<rparr>)
        else (False, self))"
  using gemini_loop_step [OF assms, of 0 "length (available_models self)"]
  by (simp add: gemini_switch_to_next_model_def)

lemma gemini_switch_times:
  "\<forall>m \<in> set (available_models self). init m = None \<Longrightarrow>
   fst (switch_times (gemini_switch_to_next_model init) n self)
     = map (\<lambda>k. current_model_index self + k < length (available_models self)) [Suc 0..<Suc n]"
proof (induction n arbitrary: self)
  case 0
  show ?case by simp
next
  case (Suc n)
  let ?p1 = "snd (fst (gemini_switch_to_next_model init self))"
  show ?case
  proof (cases "Suc (current_model_index self) < length (available_models self)")
    case True
    then have st: "fst (gemini_switch_to_next_model init self)
        = (True, self\<lparr>current_model_index := Suc (current_model_index self),
                         model_instance := Some (available_models self ! Suc (current_model_index self))\<rparr>)"
      using gemini_switch_step [OF Suc.prems] by simp
    have ok: "\<forall>m \<in> set (available_models ?p1). init m = None" using Suc.prems by (simp add: st)
    show ?thesis using Suc.IH [OF ok] True
      unfolding switch_times_Suc_fst upt_shift st
      by (auto simp: comp_def)
  next
    case False
    then have st: "fst (gemini_switch_to_next_model init self) = (False, self)"
      using gemini_switch_step [OF Suc.prems] by simp
    have ok: "\<forall>m \<in> set (available_models ?p1). init m = None" using Suc.prems by (simp add: st)
    show ?thesis using Suc.IH [OF ok] False
      unfolding switch_times_Suc_fst upt_shift st
      by (auto simp: comp_def)
  qed
qed

text \<open>
  C5, as amended. With a fallback list of length \<open>L\<close> and the index at \<open>i\<close>, the \<open>k\<close>-th call
  of \<^verbatim>\<open>_switch_to_next_model\<close> returns true exactly when \<open>i + k < L\<close>, that is for the first
  \<open>L - 1 - i\<close> calls and for none after them: always for the Claude adapter, and for the
  Gemini adapter when the vendor builds a client for every model of the list. For both
  adapters, whatever the vendor does, the index never decreases over any run of calls.
\<close>

theorem C5_fallback_forward_only:
  "fst (switch_times claude_switch_to_next_model n c)
     = map (\<lambda>k. current_model_index c + k < length (available_models c)) [1..<Suc n]
   \<and> ((\<forall>m \<in> set (available_models g). init_failure m = None) \<longrightarrow>
        fst (switch_times (gemini_switch_to_next_model init_failure) n g)
          = map (\<lambda>k. current_model_index g + k < length (available_models g)) [1..<Suc n])
   \<and> current_model_index (snd (switch_times claude_switch_to_next_model n c))
       \<le> current_model_index (snd (switch_times claude_switch_to_next_model (n + k) c))
   \<and> current_model_index (snd (switch_times (gemini_switch_to_next_model init_failure) n g))
       \<le> current_model_index (snd (switch_times (gemini_switch_to_next_model init_failure) (n + k) g))"
proof -
  have a: "fst (switch_times claude_switch_to_next_model n c)
     = map (\<lambda>k. current_model_index c + k < length (available_models c)) [1..<Suc n]"
    using claude_switch_times [of n c] by simp
  have b: "fst (switch_times (gemini_switch_to_next_model init_failure) n g)
          = map (\<lambda>k. current_model_index g + k < length (available_models g)) [1..<Suc n]"
    if "\<forall>m \<in> set (available_models g). init_failure m = None"
    using gemini_switch_times [OF that, of n] by simp
  have c: "current_model_index (snd (switch_times claude_switch_to_next_model n c))
       \<le> current_model_index (snd (switch_times claude_switch_to_next_model (n + k) c))"
    unfolding switch_times_add
    by (rule switch_times_mono) (rule claude_switch_mono)
  have d: "current_model_index (snd (switch_times (gemini_switch_to_next_model init_failure) n g))
       \<le> current_model_index (snd (switch_times (gemini_switch_to_next_model init_failure) (n + k) g))"
    unfolding switch_times_add
    by (rule switch_times_mono) (rule gemini_switch_mono)
  show ?thesis using a b c d by blast
qed

theorem C5_witness:
  "fst (switch_times claude_switch_to_next_model 4
          \<lparr>available_models = claude_models, current_model_index = 0\<rparr>)
     = [True, True, False, False]
   \<and> fst (switch_times (gemini_switch_to_next_model (\<lambda>m. None)) 3
          \<lparr>available_models = gemini_models, current_model_index = 1,
            model_instance = Some ''gemini-1.5-flash''\<rparr>)
     = [True, False, False]"
  using C5_fallback_forward_only [of 4 "\<lparr>available_models = claude_models, current_model_index = 0\<rparr>"
      "\<lparr>available_models = gemini_models, current_model_index = 1,
            model_instance = Some ''gemini-1.5-flash''\<rparr>" "\<lambda>m. None" 0]
    C5_fallback_forward_only [of 3 "\<lparr>available_models = claude_models, current_model_index = 0\<rparr>"
      "\<lparr>available_models = gemini_models, current_model_index = 1,
            model_instance = Some ''gemini-1.5-flash''\<rparr>" "\<lambda>m. None" 0]
  by (simp add: claude_models_def gemini_models_def upt_rec)

text \<open>
  With a Gemini adapter whose vendor refuses the second of the three models, the first call
  skips to the third model and the second call already returns false.
\<close>

theorem C5_counterexample:
  "length gemini_models = 3
   \<and> fst (switch_times
          (gemini_switch_to_next_model (\<lambda>m. if m = ''gemini-1.5-flash'' then Some ''boom'' else None)) 2
          \<lparr>available_models = gemini_models, current_model_index = 0,
            model_instance = Some ''gemini-1.5-pro''\<rparr>)
     = [True, False]"
  by (simp add: gemini_models_def gemini_switch_to_next_model_def upt_rec initialize_model_def
      Let_def numeral_2_eq_2)



section \<open>JSON extraction\<close>

lemma groups_cons:
  "no_brace b \<Longrightarrow> no_brace c \<Longrightarrow> groups r \<Longrightarrow> groups (CHR ''{'' # b @ CHR ''}'' # c @ r)"
  using groups_more [of b c r] by simp

lemma tail_top_close: "tail_top ''}''"
proof -
  have "no_brace []" by (simp add: no_brace_def)
  moreover have "''}'' = [] @ [] @ ''}''" by simp
  ultimately show ?thesis unfolding tail_top_def using groups_empty by blast
qed

lemma tail_top_other:
  assumes "c \<noteq> CHR ''{''" "c \<noteq> CHR ''}''" "tail_top m"
  shows "tail_top (c # m)"
proof -
  obtain a r where h: "no_brace a" "groups r" "m = a @ r @ ''}''"
    using assms(3) unfolding tail_top_def by blast
  have "no_brace (c # a)" using h(1) assms(1,2) by (auto simp: no_brace_def)
  moreover have "c # m = (c # a) @ r @ ''}''" using h(3) by simp
  ultimately show ?thesis unfolding tail_top_def using h(2) by blast
qed

lemma tail_top_open:
  assumes "tail_nested m"
  shows "tail_top (CHR ''{'' # m)"
proof -
  obtain b c r where h: "no_brace b" "no_brace c" "groups r" "m = b @ ''}'' @ c @ r @ ''}''"
    using assms unfolding tail_nested_def by blast
  have "no_brace []" by (simp add: no_brace_def)
  moreover have "groups (CHR ''{'' # b @ CHR ''}'' # c @ r)" using h by (simp add: groups_cons)
  moreover have "CHR ''{'' # m = [] @ (CHR ''{'' # b @ CHR ''}'' # c @ r) @ ''}''"
    using h(4) by simp
  ultimately show ?thesis unfolding tail_top_def by blast
qed

lemma tail_nested_close:
  assumes "tail_top m"
  shows "tail_nested (CHR ''}'' # m)"
proof -
  obtain a r where h: "no_brace a" "groups r" "m = a @ r @ ''}''"
    using assms unfolding tail_top_def by blast
  have "no_brace []" by (simp add: no_brace_def)
  moreover have "CHR ''}'' # m = [] @ ''}'' @ a @ r @ ''}''" using h(3) by simp
  ultimately show ?thesis unfolding tail_nested_def using h(1,2) by blast
qed

lemma tail_nested_other:
  assumes "c \<noteq> CHR ''{''" "c \<noteq> CHR ''}''" "tail_nested m"
  shows "tail_nested (c # m)"
proof -
  obtain b c' r where h: "no_brace b" "no_brace c'" "groups r" "m = b @ ''}'' @ c' @ r @ ''}''"
    using assms(3) unfolding tail_nested_def by blast
  have "no_brace (c # b)" using h(1) assms(1,2) by (auto simp: no_brace_def)
  moreover have "c # m = (c # b) @ ''}'' @ c' @ r @ ''}''" using h(4) by simp
  ultimately show ?thesis unfolding tail_nested_def using h(2,3) by blast
qed

lemma match_object_prefix:
  "match_object nested cs = Some m \<Longrightarrow> \<exists>rest. cs = m @ rest"
  by (induction nested cs arbitrary: m rule: match_object.induct) (auto split: if_splits)

lemma match_object_sound:
  "match_object nested cs = Some m \<Longrightarrow> (if nested then tail_nested m else tail_top m)"
proof (induction nested cs arbitrary: m rule: match_object.induct)
  case (1 nested)
  then show ?case by simp
next
  case (2 nested c cs)
  consider (close) "c = CHR ''}''" | (opn) "c \<noteq> CHR ''}''" "c = CHR ''{''"
    | (other) "c \<noteq> CHR ''}''" "c \<noteq> CHR ''{''" by blast
  then show ?case
  proof cases
    case close
    show ?thesis
    proof (cases nested)
      case False
      then have "m = ''}''" using "2.prems" close by simp
      then show ?thesis using False tail_top_close by simp
    next
      case True
      then obtain m' where m': "match_object False cs = Some m'" "m = c # m'"
        using "2.prems" close by auto
      have "tail_top m'" using "2.IH"(1) [OF close True m'(1)] by simp
      then show ?thesis using True m'(2) close tail_nested_close by simp
    qed
  next
    case opn
    show ?thesis
    proof (cases nested)
      case True
      then show ?thesis using "2.prems" opn by simp
    next
      case False
      then obtain m' where m': "match_object True cs = Some m'" "m = c # m'"
        using "2.prems" opn by auto
      have "tail_nested m'" using "2.IH"(2) [OF opn(1) opn(2) False m'(1)] by simp
      then show ?thesis using False m'(2) opn tail_top_open by simp
    qed
  next
    case other
    then obtain m' where m': "match_object nested cs = Some m'" "m = c # m'"
      using "2.prems" by auto
    have "if nested then tail_nested m' else tail_top m'"
      using "2.IH"(3) [OF other(1) other(2) m'(1)] .
    then show ?thesis using m'(2) other tail_nested_other tail_top_other by simp
  qed
qed

lemma matches_pattern_tail: "tail_top m \<Longrightarrow> matches_pattern (CHR ''{'' # m)"
  unfolding tail_top_def matches_pattern_def by auto

lemma re_search_sound:
  "re_search s = Some m \<Longrightarrow> \<exists>p q. s = p @ m @ q \<and> matches_pattern m"
proof (induction s)
  case Nil
  then show ?case by simp
next
  case (Cons c cs)
  show ?case
  proof (cases "c = CHR ''{'' \<and> match_object False cs \<noteq> None")
    case True
    then obtain m' where m': "match_object False cs = Some m'" by auto
    then have m: "m = CHR ''{'' # m'" using Cons.prems True by simp
    obtain rest where "cs = m' @ rest" using match_object_prefix [OF m'] by blast
    then have "c # cs = [] @ m @ rest" using m True by simp
    moreover have "matches_pattern m"
      using match_object_sound [OF m'] m matches_pattern_tail by simp
    ultimately show ?thesis by blast
  next
    case False
    then have "re_search cs = Some m" using Cons.prems by (auto split: option.splits if_splits)
    then obtain p q where "cs = p @ m @ q" "matches_pattern m" using Cons.IH by blast
    then have "c # cs = (c # p) @ m @ q" by simp
    then show ?thesis using \<open>matches_pattern m\<close> by blast
  qed
qed

lemma match_object_skip:
  "no_brace a \<Longrightarrow> match_object nested (a @ x) = map_option ((@) a) (match_object nested x)"
proof (induction a)
  case Nil
  show ?case by (simp add: option.map_ident)
next
  case (Cons c a)
  then have "c \<noteq> CHR ''{''" "c \<noteq> CHR ''}''" "no_brace a" by (auto simp: no_brace_def)
  then show ?case using Cons.IH by (simp add: option.map_comp comp_def)
qed

lemma match_object_groups:
  "groups r \<Longrightarrow> match_object False (r @ CHR ''}'' # rest) = Some (r @ ''}'')"
proof (induction r rule: groups.induct)
  case groups_empty
  show ?case by simp
next
  case (groups_more b c r)
  have "match_object False ((''{'' @ b @ ''}'' @ c @ r) @ CHR ''}'' # rest)
      = map_option ((#) CHR ''{'') (match_object True (b @ (CHR ''}'' # c @ r @ CHR ''}'' # rest)))"
    by simp
  also have "match_object True (b @ (CHR ''}'' # c @ r @ CHR ''}'' # rest))
      = map_option ((@) b) (match_object True (CHR ''}'' # c @ r @ CHR ''}'' # rest))"
    using groups_more(1) by (rule match_object_skip)
  also have "match_object True (CHR ''}'' # c @ r @ CHR ''}'' # rest)
      = map_option ((#) CHR ''}'') (match_object False (c @ (r @ CHR ''}'' # rest)))"
    by simp
  also have "match_object False (c @ (r @ CHR ''}'' # rest))
      = map_option ((@) c) (match_object False (r @ CHR ''}'' # rest))"
    using groups_more(2) by (rule match_object_skip)
  also have "match_object False (r @ CHR ''}'' # rest) = Some (r @ ''}'')"
    by (rule groups_more.IH)
  finally show ?case by simp
qed

lemma match_object_complete:
  assumes "tail_top t"
  shows "match_object False (t @ rest) = Some t"
proof -
  obtain a r where h: "no_brace a" "groups r" "t = a @ r @ ''}''"
    using assms unfolding tail_top_def by blast
  have "match_object False (t @ rest) = match_object False (a @ (r @ CHR ''}'' # rest))"
    using h(3) by simp
  also have "\<dots> = map_option ((@) a) (match_object False (r @ CHR ''}'' # rest))"
    using h(1) by (rule match_object_skip)
  also have "\<dots> = Some t" using match_object_groups [OF h(2)] h(3) by simp
  finally show ?thesis .
qed

lemma matches_pattern_cases:
  "matches_pattern m \<Longrightarrow> \<exists>t. m = CHR ''{'' # t \<and> tail_top t"
  unfolding tail_top_def matches_pattern_def by auto

lemma re_search_start:
  assumes "matches_pattern m"
  shows "re_search (m @ q) = Some m"
proof -
  obtain t where t: "m = CHR ''{'' # t" "tail_top t" using matches_pattern_cases [OF assms] by blast
  then show ?thesis using match_object_complete [OF t(2), of q] by simp
qed

lemma re_search_leftmost:
  "re_search s = Some m \<Longrightarrow>
     \<exists>p q. s = p @ m @ q \<and> matches_pattern m
       \<and> (\<forall>p' m' q'. s = p' @ m' @ q' \<and> matches_pattern m'
              \<longrightarrow> length p < length p' \<or> (p' = p \<and> m' = m))"
proof (induction s)
  case Nil
  then show ?case by simp
next
  case (Cons c cs)
  show ?case
  proof (cases "c = CHR ''{'' \<and> match_object False cs \<noteq> None")
    case True
    then obtain m0 where c: "c = CHR ''{''" and m0: "match_object False cs = Some m0" by auto
    then have m: "m = CHR ''{'' # m0" using Cons.prems by simp
    obtain rest where rest: "cs = m0 @ rest" using match_object_prefix [OF m0] by blast
    have mp: "matches_pattern m" using match_object_sound [OF m0] m matches_pattern_tail by simp
    have eq: "c # cs = [] @ m @ rest" using c m rest by simp
    have "length ([]::string) < length p' \<or> (p' = [] \<and> m' = m)"
      if h: "c # cs = p' @ m' @ q'" "matches_pattern m'" for p' m' q'
    proof (cases p')
      case Nil
      then have "re_search (c # cs) = Some m'" using re_search_start [OF h(2), of q'] h(1) by simp
      then show ?thesis using Cons.prems Nil by simp
    next
      case (Cons x xs)
      then show ?thesis by simp
    qed
    then show ?thesis using eq mp by blast
  next
    case False
    then have "re_search cs = Some m" using Cons.prems by (auto split: option.splits if_splits)
    then obtain p q where pq: "cs = p @ m @ q" "matches_pattern m"
      and least: "\<And>p' m' q'. cs = p' @ m' @ q' \<Longrightarrow> matches_pattern m'
              \<Longrightarrow> length p < length p' \<or> (p' = p \<and> m' = m)"
      using Cons.IH by blast
    have eq: "c # cs = (c # p) @ m @ q" using pq(1) by simp
    have "length (c # p) < length p' \<or> (p' = c # p \<and> m' = m)"
      if h: "c # cs = p' @ m' @ q'" "matches_pattern m'" for p' m' q'
    proof (cases p')
      case Nil
      obtain t where t: "m' = CHR ''{'' # t" "tail_top t"
        using matches_pattern_cases [OF h(2)] by blast
      then have "c = CHR ''{''" and "cs = t @ q'" using h(1) Nil by simp_all
      then have "c = CHR ''{'' \<and> match_object False cs \<noteq> None"
        using match_object_complete [OF t(2), of q'] by simp
      then show ?thesis using False by blast
    next
      case (Cons x xs)
      then have "cs = xs @ m' @ q'" and "x = c" using h(1) by simp_all
      then show ?thesis using least [OF _ h(2)] Cons by auto
    qed
    then show ?thesis using eq pq(2) by blast
  qed
qed

lemma re_search_None_iff:
  "re_search s = None \<longleftrightarrow> \<not> (\<exists>p m q. s = p @ m @ q \<and> matches_pattern m)"
proof
  assume n: "re_search s = None"
  show "\<not> (\<exists>p m q. s = p @ m @ q \<and> matches_pattern m)"
  proof
    assume "\<exists>p m q. s = p @ m @ q \<and> matches_pattern m"
    then obtain p m q where "s = p @ m @ q" "matches_pattern m" by blast
    then have "re_search s \<noteq> None"
    proof (induction p arbitrary: s)
      case Nil
      then show ?case using re_search_start [of m q] by simp
    next
      case (Cons c p)
      then have "re_search (p @ m @ q) \<noteq> None" by blast
      then show ?case using Cons.prems(1) by (auto split: option.splits)
    qed
    then show False using n by simp
  qed
next
  assume "\<not> (\<exists>p m q. s = p @ m @ q \<and> matches_pattern m)"
  then show "re_search s = None" using re_search_sound [of s] by (cases "re_search s") auto
qed

lemma no_open_brace: "CHR ''{'' \<notin> set s \<Longrightarrow> re_search s = None"
  by (induction s) auto

lemma no_close_brace_match: "CHR ''}'' \<notin> set s \<Longrightarrow> match_object nested s = None"
  by (induction nested s rule: match_object.induct) auto

lemma no_close_brace: "CHR ''}'' \<notin> set s \<Longrightarrow> re_search s = None"
  by (induction s) (auto simp: no_close_brace_match)


text \<open>
  C7. On the reply \<^verbatim>\<open>prefix {"a":1,"b":{"c":2}} suffix\<close> the extraction returns exactly
  \<^verbatim>\<open>{"a":1,"b":{"c":2}}\<close>. On every reply no part of which matches the pattern, and so in
  particular on every reply without an opening brace or without a closing brace, it logs
  and raises \<^verbatim>\<open>ValueError("No JSON object found in response")\<close>.
\<close>

theorem C7_extract_json:
  \<open>fst (extract_json_from_response ''prefix {"a":1,"b":{"c":2}} suffix'')
     = Inr ''{"a":1,"b":{"c":2}}''
   \<and> (\<not> (\<exists>p m q. s = p @ m @ q \<and> matches_pattern m) \<longrightarrow>
        extract_json_from_response s
          = (Inl (ValueError ''No JSON object found in response''),
             [(''error'', ''No JSON object found in response'', [])]))
   \<and> (CHR ''{'' \<notin> set s \<or> CHR ''}'' \<notin> set s \<longrightarrow>
        extract_json_from_response s
          = (Inl (ValueError ''No JSON object found in response''),
             [(''error'', ''No JSON object found in response'', [])]))\<close>
proof -
  have a: \<open>fst (extract_json_from_response ''prefix {"a":1,"b":{"c":2}} suffix'')
     = Inr ''{"a":1,"b":{"c":2}}''\<close>
    by (simp add: extract_json_from_response_def)
  have b: "extract_json_from_response s
          = (Inl (ValueError ''No JSON object found in response''),
             [(''error'', ''No JSON object found in response'', [])])"
    if "re_search s = None"
    using that by (simp add: extract_json_from_response_def)
  have c: "re_search s = None" if "\<not> (\<exists>p m q. s = p @ m @ q \<and> matches_pattern m)"
    using that re_search_None_iff [of s] by simp
  have d: "re_search s = None" if "CHR ''{'' \<notin> set s \<or> CHR ''}'' \<notin> set s"
    using that no_open_brace [of s] no_close_brace [of s] by auto
  show ?thesis
  proof (intro conjI impI)
    show \<open>fst (extract_json_from_response ''prefix {"a":1,"b":{"c":2}} suffix'')
     = Inr ''{"a":1,"b":{"c":2}}''\<close> by (rule a)
  next
    assume "\<not> (\<exists>p m q. s = p @ m @ q \<and> matches_pattern m)"
    then show "extract_json_from_response s
          = (Inl (ValueError ''No JSON object found in response''),
             [(''error'', ''No JSON object found in response'', [])])"
      by (rule b [OF c])
  next
    assume "CHR ''{'' \<notin> set s \<or> CHR ''}'' \<notin> set s"
    then show "extract_json_from_response s
          = (Inl (ValueError ''No JSON object found in response''),
             [(''error'', ''No JSON object found in response'', [])])"
      by (rule b [OF d])
  qed
qed

theorem C7_witness:
  "extract_json_from_response ''no json here, only a lone } and then {''
     = (Inl (ValueError ''No JSON object found in response''),
        [(''error'', ''No JSON object found in response'', [])])
   \<and> extract_json_from_response ''plain text''
     = (Inl (ValueError ''No JSON object found in response''),
        [(''error'', ''No JSON object found in response'', [])])"
proof -
  have n: "re_search ''no json here, only a lone } and then {'' = None" by simp
  have h: "\<not> (\<exists>p m q. ''no json here, only a lone } and then {'' = p @ m @ q \<and> matches_pattern m)"
    by (rule re_search_None_iff [THEN iffD1, OF n])
  have g: "CHR ''{'' \<notin> set ''plain text'' \<or> CHR ''}'' \<notin> set ''plain text''" by simp
  note t1 = C7_extract_json [of "''no json here, only a lone } and then {''", THEN conjunct2,
      THEN conjunct1, rule_format, OF h]
  note t2 = C7_extract_json [of "''plain text''", THEN conjunct2, THEN conjunct2, rule_format, OF g]
  show ?thesis using t1 t2 by (intro conjI)
qed



section \<open>Validation\<close>










section \<open>Failures of the two operations\<close>











end
